theory Spec2Isabelle
  imports Main "HOL-Library.Log_Nat" "HOL-Library.AList"
begin

section \<open>Python floats\<close>

text \<open>
  \<^verbatim>\<open>resize_image\<close> computes with Python floats (IEEE 754 binary64). A finite float is
  modelled by the rational number it denotes, and every arithmetic operation by the exact
  rational result followed by \<open>fl\<close>, rounding to the nearest binary64 value with ties to
  the even significand (53 bits of precision, least exponent \<open>-1074\<close>). A result of
  magnitude \<open>2 ^ 1024\<close> or more is infinite in binary64: Python raises
  \<^verbatim>\<open>OverflowError\<close> for it in \<^verbatim>\<open>int / int\<close> and in the conversion of an int to float, and
  \<^verbatim>\<open>int()\<close> raises the same error on an infinite float, so the model raises it where the
  infinity would arise.
\<close>

datatype error =
    ZeroDivisionError
  | OverflowError
  | ValueError string
  | UnidentifiedImageError
  | FileNotFoundError
  | IsADirectoryError
  | FileExistsError
  | BadZipFile

definition ilog2 :: "rat \<Rightarrow> int" where
  \<comment> \<open>\<open>\<lfloor>log\<^sub>2 x\<rfloor>\<close> for \<open>x > 0\<close>, from the bit lengths of numerator and denominator\<close>
  "ilog2 x = (let (p, q) = quotient_of x; k = bitlen p - bitlen q
              in if x < 2 powi k then k - 1 else k)"

definition round_half_even :: "rat \<Rightarrow> int" where
  "round_half_even x = (let n = \<lfloor>x\<rfloor>; r = x - of_int n
     in if r < 1 / 2 then n else if 1 / 2 < r then n + 1 else if even n then n else n + 1)"

definition fexp :: "rat \<Rightarrow> int" where
  \<comment> \<open>the exponent of the unit in the last place of the binade of \<open>x\<close>\<close>
  "fexp x = max (ilog2 \<bar>x\<bar>) (- 1022) - 52"

definition fl :: "rat \<Rightarrow> rat" where
  "fl x = (if x = 0 then 0
           else sgn x * of_int (round_half_even (\<bar>x\<bar> / 2 powi fexp x)) * 2 powi fexp x)"

definition finite_float :: "rat \<Rightarrow> error + rat" where
  "finite_float r = (if 2 powi 1024 \<le> \<bar>r\<bar> then Inl OverflowError else Inr r)"

definition float_of_int :: "int \<Rightarrow> error + rat" where
  \<comment> \<open>the implicit conversion of an int operand in \<^verbatim>\<open>int / float\<close> and \<^verbatim>\<open>int * float\<close>\<close>
  "float_of_int n = finite_float (fl (of_int n))"

definition int_truediv :: "int \<Rightarrow> int \<Rightarrow> error + rat" where
  \<comment> \<open>\<^verbatim>\<open>a / b\<close> on two ints: the correctly rounded quotient\<close>
  "int_truediv a b =
     (if b = 0 then Inl ZeroDivisionError else finite_float (fl (of_int a / of_int b)))"

definition float_truediv :: "rat \<Rightarrow> rat \<Rightarrow> error + rat" where
  "float_truediv x y = (if y = 0 then Inl ZeroDivisionError else finite_float (fl (x / y)))"

definition float_mul :: "rat \<Rightarrow> rat \<Rightarrow> error + rat" where
  "float_mul x y = finite_float (fl (x * y))"

definition py_int :: "rat \<Rightarrow> int" where
  \<comment> \<open>\<^verbatim>\<open>int(x)\<close> on a float: truncation toward zero\<close>
  "py_int x = (if 0 \<le> x then \<lfloor>x\<rfloor> else \<lceil>x\<rceil>)"

section \<open>The imaging library\<close>

text \<open>
  What the program uses of the imaging library (Pillow). An image has its size, its colour
  mode and its pixels; the pixels are kept symbolically, as the history of library calls
  that produced them. \<^verbatim>\<open>Image.resize\<close> rejects a target size with a dimension below 1
  (\<^verbatim>\<open>ValueError: height and width must be > 0\<close>), \<^verbatim>\<open>Image.new\<close> rejects a negative
  dimension; memory limits are not modelled.
\<close>

datatype pixels =
    Decoded nat
  | Lanczos pixels "int \<times> int"
  | Solid "nat \<times> nat \<times> nat"
  | Pasted pixels pixels "int \<times> int" "int \<times> int"

record image =
  width :: int
  height :: int
  mode :: string
  content :: pixels

definition pil_resize :: "image \<Rightarrow> int \<times> int \<Rightarrow> error + image" where
  \<comment> \<open>\<^verbatim>\<open>img.resize(size, Image.LANCZOS)\<close>\<close>
  "pil_resize img sz =
     (if fst sz < 1 \<or> snd sz < 1 then Inl (ValueError ''height and width must be > 0'')
      else Inr \<lparr>width = fst sz, height = snd sz, mode = mode img,
                content = Lanczos (content img) sz\<rparr>)"

definition pil_new :: "string \<Rightarrow> int \<times> int \<Rightarrow> nat \<times> nat \<times> nat \<Rightarrow> error + image" where
  \<comment> \<open>\<^verbatim>\<open>Image.new(mode, size, color)\<close>\<close>
  "pil_new m sz color =
     (if fst sz < 0 \<or> snd sz < 0 then Inl (ValueError ''Width and height must be >= 0'')
      else Inr \<lparr>width = fst sz, height = snd sz, mode = m, content = Solid color\<rparr>)"

definition pil_paste :: "image \<Rightarrow> image \<Rightarrow> int \<times> int \<Rightarrow> image" where
  \<comment> \<open>\<^verbatim>\<open>background.paste(im, offset)\<close>: the box of \<open>im\<close> placed at \<open>offset\<close>; size and mode
      of the background are unchanged\<close>
  "pil_paste background im offset =
     background\<lparr>content := Pasted (content background) (content im) offset
                                (width im, height im)\<rparr>"

section \<open>The resizer\<close>

definition scaled_size :: "int \<Rightarrow> int \<Rightarrow> int \<times> int \<Rightarrow> error + (int \<times> int)" where
  \<comment> \<open>lines 23 to 29 of \<^verbatim>\<open>resize_image\<close>: \<open>(new_width, new_height)\<close>\<close>
  "scaled_size w h output_size =
     (case int_truediv w h of
        Inl e \<Rightarrow> Inl e
      | Inr aspect_ratio \<Rightarrow>
          if aspect_ratio > 1 then
            (let new_width = fst output_size in
             case float_of_int new_width of
               Inl e \<Rightarrow> Inl e
             | Inr nw \<Rightarrow>
                 (case float_truediv nw aspect_ratio of
                    Inl e \<Rightarrow> Inl e
                  | Inr q \<Rightarrow> Inr (new_width, py_int q)))
          else
            (let new_height = snd output_size in
             case float_of_int new_height of
               Inl e \<Rightarrow> Inl e
             | Inr nh \<Rightarrow>
                 (case float_mul nh aspect_ratio of
                    Inl e \<Rightarrow> Inl e
                  | Inr q \<Rightarrow> Inr (py_int q, new_height))))"

definition resize_image :: "image \<Rightarrow> int \<times> int \<Rightarrow> error + image" where
  "resize_image img output_size =
     (case scaled_size (width img) (height img) output_size of
        Inl e \<Rightarrow> Inl e
      | Inr (new_width, new_height) \<Rightarrow>
          (case pil_resize img (new_width, new_height) of
             Inl e \<Rightarrow> Inl e
           | Inr img_resized \<Rightarrow>
               (case pil_new ''RGB'' output_size (255, 255, 255) of
                  Inl e \<Rightarrow> Inl e
                | Inr background \<Rightarrow>
                    (let offset = ((fst output_size - new_width) div 2,
                                   (snd output_size - new_height) div 2)
                     in Inr (pil_paste background img_resized offset)))))"

definition default_size :: "int \<times> int" where
  "default_size = (2500, 2500)"

text \<open>
  The scaled size as section 4.1 of the specification words it, with \<open>round\<close> (to the
  nearest integer) where the code has \<^verbatim>\<open>int()\<close>; only compared with \<open>scaled_size\<close>.
\<close>

definition spec_scaled_size :: "int \<Rightarrow> int \<Rightarrow> int \<times> int \<Rightarrow> error + (int \<times> int)" where
  "spec_scaled_size w h output_size =
     (case int_truediv w h of
        Inl e \<Rightarrow> Inl e
      | Inr aspect \<Rightarrow>
          if aspect > 1 then
            (case float_of_int (fst output_size) of
               Inl e \<Rightarrow> Inl e
             | Inr nw \<Rightarrow>
                 (case float_truediv nw aspect of
                    Inl e \<Rightarrow> Inl e
                  | Inr q \<Rightarrow> Inr (fst output_size, round q)))
          else
            (case float_of_int (snd output_size) of
               Inl e \<Rightarrow> Inl e
             | Inr nh \<Rightarrow>
                 (case float_mul nh aspect of
                    Inl e \<Rightarrow> Inl e
                  | Inr q \<Rightarrow> Inr (round q, snd output_size))))"

definition dim_ok :: "int \<Rightarrow> bool" where
  \<comment> \<open>a positive dimension the imaging library can hold (a C \<^verbatim>\<open>int\<close>)\<close>
  "dim_ok n = (0 < n \<and> n < 2 ^ 31)"

section \<open>Paths, files and the batch runner\<close>

text \<open>
  Paths are POSIX path strings, taken as they are written (no normalisation). The file
  system is a list of directories and an association list of regular files; \<open>child\<close> says
  when a path is an entry of a directory, as \<^verbatim>\<open>os.path.join\<close> builds it. An image file holds
  the name of its encoding and the image it decodes to. Creating the output folder
  always succeeds, and writing a file fails only where the path names a directory:
  permission and disk failures of the operating system are not modelled. The log holds, per failed task, the source path and the error.

  The tasks of one directory run on a thread pool and are joined before \<^verbatim>\<open>os.walk\<close> moves
  on; their results are read in submission order. Two tasks write the same file only when
  their sources have the same base name, so the tasks are run one after the other, in
  submission order. \<^verbatim>\<open>os.walk\<close> is lazy: a directory is listed when the walk reaches it, after
  the tasks of the directories before it have run; \<open>walk_tree\<close> lists the files from the
  current state. Tasks create no directories, so the directories are those at the start.

  \<^verbatim>\<open>tempfile\<close> draws candidate names at random and takes the first that does not exist;
  \<open>temp_names\<close> is the sequence of names it will draw. An archive is a list of member
  paths with their contents, \<open>None\<close> for a member that cannot be read.
\<close>

definition lower_char :: "char \<Rightarrow> char" where
  "lower_char c =
     (case map_of (zip ''ABCDEFGHIJKLMNOPQRSTUVWXYZ'' ''abcdefghijklmnopqrstuvwxyz'') c of
        Some l \<Rightarrow> l
      | None \<Rightarrow> c)"

definition lower :: "string \<Rightarrow> string" where
  "lower s = map lower_char s"

definition endswith :: "string \<Rightarrow> string \<Rightarrow> bool" where
  "endswith s suffix = (length suffix \<le> length s \<and> drop (length s - length suffix) s = suffix)"

definition basename :: "string \<Rightarrow> string" where
  "basename p = rev (takeWhile (\<lambda>c. c \<noteq> CHR ''/'') (rev p))"

definition path_join :: "string \<Rightarrow> string \<Rightarrow> string" where
  "path_join a b =
     (if b \<noteq> [] \<and> hd b = CHR ''/'' then b
      else if a = [] \<or> last a = CHR ''/'' then a @ b
      else a @ ''/'' @ b)"

datatype file_content =
    Picture string image
  | Junk
  | Archive "(string \<times> file_content option) list"

record world =
  dirs :: "string list"
  files :: "(string \<times> file_content) list"
  log :: "(string \<times> error) list"
  temp_names :: "string list"

definition pil_open :: "world \<Rightarrow> string \<Rightarrow> error + image" where
  "pil_open w p =
     (case map_of (files w) p of
        None \<Rightarrow> if p \<in> set (dirs w) then Inl IsADirectoryError else Inl FileNotFoundError
      | Some (Picture enc img) \<Rightarrow> Inr img
      | Some _ \<Rightarrow> Inl UnidentifiedImageError)"

definition isfile :: "world \<Rightarrow> string \<Rightarrow> bool" where
  "isfile w p = (map_of (files w) p \<noteq> None)"

definition isdir :: "world \<Rightarrow> string \<Rightarrow> bool" where
  "isdir w p = (p \<in> set (dirs w))"

definition pil_save :: "world \<Rightarrow> string \<Rightarrow> string \<Rightarrow> image \<Rightarrow> error + world" where
  \<comment> \<open>\<^verbatim>\<open>img.save(p, enc)\<close>: creates or overwrites the file \<open>p\<close>\<close>
  "pil_save w p enc img =
     (if isdir w p \<or> basename p = [] then Inl IsADirectoryError
      else Inr (w\<lparr>files := AList.update p (Picture enc img) (files w)\<rparr>))"

definition log_error :: "world \<Rightarrow> string \<Rightarrow> error \<Rightarrow> world" where
  "log_error w p e = w\<lparr>log := log w @ [(p, e)]\<rparr>"

definition process_image ::
  "world \<Rightarrow> string \<Rightarrow> string \<Rightarrow> string \<Rightarrow> string \<Rightarrow> int \<times> int \<Rightarrow> string option \<times> world" where
  "process_image w image_path output_folder output_format original_name output_size =
     (case pil_open w image_path of
        Inl e \<Rightarrow> (None, log_error w image_path e)
      | Inr img \<Rightarrow>
          (case resize_image img output_size of
             Inl e \<Rightarrow> (None, log_error w image_path e)
           | Inr img_resized \<Rightarrow>
               (let output_path = path_join output_folder (basename original_name) in
                case (if lower output_format = ''jpg''
                        then pil_save w output_path ''JPEG'' img_resized
                      else if lower output_format = ''png''
                        then pil_save w output_path ''PNG'' img_resized
                      else if lower output_format = ''webp''
                        then pil_save w output_path ''WEBP'' img_resized
                      else Inl (ValueError (''Formato no soportado: '' @ output_format))) of
                  Inl e \<Rightarrow> (None, log_error w image_path e)
                | Inr w' \<Rightarrow> (Some output_path, w'))))"

definition child :: "string \<Rightarrow> string \<Rightarrow> bool" where
  \<comment> \<open>\<open>p\<close> is an entry of the directory \<open>parent\<close>\<close>
  "child parent p = (basename p \<noteq> [] \<and> p = path_join parent (basename p))"

definition path_prefixes :: "string \<Rightarrow> string list" where
  \<comment> \<open>the ancestors of a path, and the path itself\<close>
  "path_prefixes p =
     map (\<lambda>i. take i p) (filter (\<lambda>i. p ! i = CHR ''/'') [1..<length p]) @ [p]"

definition ensure_dirs :: "world \<Rightarrow> string list \<Rightarrow> world" where
  "ensure_dirs w ps = w\<lparr>dirs := dirs w @ filter (\<lambda>d. d \<notin> set (dirs w)) ps\<rparr>"

definition makedirs :: "world \<Rightarrow> string \<Rightarrow> world" where
  \<comment> \<open>\<^verbatim>\<open>os.makedirs(p, exist_ok=True)\<close>\<close>
  "makedirs w p = ensure_dirs w (path_prefixes p)"

definition scandir_files :: "world \<Rightarrow> string \<Rightarrow> string list" where
  "scandir_files w parent = map basename (filter (child parent) (map fst (files w)))"

definition scandir_dirs :: "string list \<Rightarrow> string \<Rightarrow> string list" where
  "scandir_dirs ds parent = map basename (filter (child parent) ds)"

fun run_tasks ::
  "world \<Rightarrow> string list \<Rightarrow> string \<Rightarrow> string \<Rightarrow> string list \<Rightarrow> string list \<times> world" where
  "run_tasks w [] output_folder output_format processed_images = (processed_images, w)"
| "run_tasks w (img # image_files) output_folder output_format processed_images =
     (case process_image w img output_folder output_format img default_size of
        (result, w') \<Rightarrow>
          run_tasks w' image_files output_folder output_format
            (case result of
               None \<Rightarrow> processed_images
             | Some p \<Rightarrow> if p \<noteq> [] then processed_images @ [p] else processed_images))"

function walk_tree ::
  "string list \<Rightarrow> string \<Rightarrow> string \<Rightarrow> string \<Rightarrow> string list \<times> world \<Rightarrow> string list \<times> world" where
  "walk_tree ds root_dir output_folder output_format (processed_images, w) =
     (let image_files = map (path_join root_dir) (scandir_files w root_dir);
          s = run_tasks w image_files output_folder output_format processed_images
      in fold (\<lambda>d s'. walk_tree ds (path_join root_dir d) output_folder output_format s')
           (scandir_dirs ds root_dir) s)"
  by pat_completeness auto

definition zip_open :: "world \<Rightarrow> string \<Rightarrow> error + (string \<times> file_content option) list" where
  "zip_open w p =
     (case map_of (files w) p of
        Some (Archive members) \<Rightarrow> Inr members
      | Some _ \<Rightarrow> Inl BadZipFile
      | None \<Rightarrow> Inl FileNotFoundError)"

definition exists_path :: "world \<Rightarrow> string \<Rightarrow> bool" where
  "exists_path w p = (isdir w p \<or> isfile w p)"

definition temp_path :: "string \<Rightarrow> string" where
  "temp_path suffix = path_join ''/tmp'' (''tmp'' @ suffix)"

definition mkdtemp :: "world \<Rightarrow> error + (string \<times> world)" where
  "mkdtemp w =
     (case dropWhile (\<lambda>s. exists_path w (temp_path s)) (temp_names w) of
        [] \<Rightarrow> Inl FileExistsError
      | s # rest \<Rightarrow> Inr (temp_path s, w\<lparr>dirs := dirs w @ [temp_path s], temp_names := rest\<rparr>))"

fun extractall ::
  "world \<Rightarrow> (string \<times> file_content option) list \<Rightarrow> string \<Rightarrow> error option \<times> world" where
  "extractall w [] temp_dir = (None, w)"
| "extractall w ((name, member) # members) temp_dir =
     (case member of
        None \<Rightarrow> (Some BadZipFile, w)
      | Some c \<Rightarrow>
          (let target = path_join temp_dir name;
               w' = ensure_dirs w (butlast (path_prefixes target))
           in extractall (w'\<lparr>files := AList.update target c (files w')\<rparr>) members temp_dir))"

definition under :: "string \<Rightarrow> string \<Rightarrow> bool" where
  "under t p = (p = t \<or> take (Suc (length t)) p = t @ ''/'')"

definition rmtree :: "world \<Rightarrow> string \<Rightarrow> world" where
  "rmtree w t = w\<lparr>dirs := filter (\<lambda>p. \<not> under t p) (dirs w),
                  files := filter (\<lambda>(p, c). \<not> under t p) (files w)\<rparr>"

definition extract_and_process_images ::
  "world \<Rightarrow> (string \<times> file_content option) list \<Rightarrow> string \<Rightarrow> string
     \<Rightarrow> (error + string list) \<times> world" where
  "extract_and_process_images w zip_file output_folder output_format =
     (case mkdtemp w of
        Inl e \<Rightarrow> (Inl e, w)
      | Inr (temp_dir, w1) \<Rightarrow>
          (case extractall w1 zip_file temp_dir of
             (Some e, w2) \<Rightarrow> (Inl e, rmtree w2 temp_dir)
           | (None, w2) \<Rightarrow>
               (case walk_tree (dirs w2) temp_dir output_folder output_format ([], w2) of
                  (processed_images, w3) \<Rightarrow> (Inr processed_images, rmtree w3 temp_dir))))"

definition process_images ::
  "world \<Rightarrow> string \<Rightarrow> string \<Rightarrow> string \<Rightarrow> (error + string list) \<times> world" where
  "process_images w0 input_path output_folder output_format =
     (let w = makedirs w0 output_folder in
      if isfile w input_path \<and>
         (endswith (lower input_path) ''.zip'' \<or> endswith (lower input_path) ''.rar'')
      then
        (case zip_open w input_path of
           Inl e \<Rightarrow> (Inl e, w)
         | Inr zip_file \<Rightarrow> extract_and_process_images w zip_file output_folder output_format)
      else if isdir w input_path then
        (case walk_tree (dirs w) input_path output_folder output_format ([], w) of
           (processed_images, w') \<Rightarrow> (Inr processed_images, w'))
      else (Inl (ValueError ''La entrada debe ser un archivo ZIP, RAR o una carpeta''), w))"

definition encoder_name :: "string \<Rightarrow> string" where
  "encoder_name output_format =
     (if lower output_format = ''jpg'' then ''JPEG''
      else if lower output_format = ''png'' then ''PNG'' else ''WEBP'')"

definition supported :: "string \<Rightarrow> bool" where
  "supported output_format =
     (lower output_format = ''jpg'' \<or> lower output_format = ''png'' \<or> lower output_format = ''webp'')"

definition photo :: image where
  "photo = \<lparr>width = 3, height = 2, mode = ''RGBA'', content = Decoded 0\<rparr>"

definition photo_resized :: image where
  "photo_resized = \<lparr>width = 2500, height = 2500, mode = ''RGB'',
           content = Pasted (Solid (255, 255, 255)) (Lanczos (Decoded 0) (2500, 1666))
                       (0, 417) (2500, 1666)\<rparr>"

definition w_photo :: world where
  "w_photo = \<lparr>dirs = [''in'', ''out''], files = [(''in/photo.png'', Picture ''PNG'' photo)],
              log = [], temp_names = []\<rparr>"

definition w_zip :: world where
  "w_zip = \<lparr>dirs = [''/tmp''],
            files = [(''good.zip'', Archive [(''a/photo.png'', Some (Picture ''PNG'' photo)),
                                            (''notes.txt'', Some Junk)]),
                     (''bad.zip'', Archive [(''a/photo.png'', Some (Picture ''PNG'' photo)),
                                           (''b/broken.png'', None)])],
            log = [], temp_names = [''0'', ''1'']\<rparr>"

definition collect :: "string list \<Rightarrow> string option \<Rightarrow> string list" where
  "collect acc r = (case r of None \<Rightarrow> acc | Some p \<Rightarrow> if p \<noteq> [] then acc @ [p] else acc)"

definition w_dir :: world where
  "w_dir = \<lparr>dirs = [''in'', ''in/sub''],
            files = [(''in/photo.png'', Picture ''PNG'' photo),
                     (''in/notes.txt'', Junk),
                     (''in/sub/photo.png'', Picture ''PNG'' photo)],
            log = [], temp_names = [''0'']\<rparr>"




section \<open>Rounding to binary64\<close>

lemma bitlen_rat_bounds:
  assumes "0 < p"
  shows "2 powi (bitlen p - 1) \<le> (of_int p :: rat)" and "(of_int p :: rat) < 2 powi bitlen p"
proof -
  from bitlen_bounds[OF assms]
  have a: "2 ^ nat (bitlen p - 1) \<le> p" and b: "p < 2 ^ nat (bitlen p)" by auto
  have ge1: "1 \<le> bitlen p" using assms by (simp add: bitlen_alt_def)
  have "(of_int (2 ^ nat (bitlen p - 1)) :: rat) \<le> of_int p"
    using a by (simp only: of_int_le_iff)
  then show "2 powi (bitlen p - 1) \<le> (of_int p :: rat)"
    using ge1 by (simp add: power_int_def)
  have "(of_int p :: rat) < of_int (2 ^ nat (bitlen p))"
    using b by (simp only: of_int_less_iff)
  then show "(of_int p :: rat) < 2 powi bitlen p"
    using ge1 by (simp add: power_int_def)
qed

lemma ilog2_bounds:
  assumes "0 < x"
  shows "2 powi ilog2 x \<le> x" and "x < 2 powi (ilog2 x + 1)"
proof -
  obtain p q where pq: "quotient_of x = (p, q)" by (cases "quotient_of x")
  have q: "0 < q" using pq by (rule quotient_of_denom_pos)
  have x: "x = of_int p / of_int q" using pq by (rule quotient_of_div)
  have p: "0 < p" using assms q x by (simp add: zero_less_divide_iff)
  define k where "k = bitlen p - bitlen q"
  note bp = bitlen_rat_bounds[OF p] and bq = bitlen_rat_bounds[OF q]
  have qpos: "(0::rat) < of_int q" using q by simp
  have up: "x < 2 powi (k + 1)"
  proof -
    have "x * of_int q = (of_int p :: rat)" using x qpos by simp
    also have "\<dots> < 2 powi bitlen p" by (rule bp)
    also have "\<dots> = 2 powi (k + 1) * 2 powi (bitlen q - 1)"
      by (simp add: k_def flip: power_int_add)
    also have "\<dots> \<le> 2 powi (k + 1) * of_int q"
      using bq(1) by (simp add: mult_left_mono)
    finally show ?thesis using qpos by simp
  qed
  have lo: "2 powi (k - 1) \<le> x"
  proof -
    have "(2::rat) powi (k - 1) * of_int q \<le> 2 powi (k - 1) * 2 powi bitlen q"
      using bq(2) by (simp add: mult_left_mono)
    also have "\<dots> = 2 powi (bitlen p - 1)"
      by (simp add: k_def flip: power_int_add)
    also have "\<dots> \<le> of_int p" by (rule bp)
    also have "\<dots> = x * of_int q" using x qpos by simp
    finally show ?thesis using qpos by simp
  qed
  have il: "ilog2 x = (if x < 2 powi k then k - 1 else k)"
    by (simp add: ilog2_def pq k_def Let_def)
  show "2 powi ilog2 x \<le> x" using lo by (simp add: il)
  show "x < 2 powi (ilog2 x + 1)" using up by (simp add: il)
qed

lemma pow2_less_imp: "(2::rat) powi m < 2 powi n \<Longrightarrow> m < n"
  using power_int_increasing[of n m "2::rat"] by (cases "m < n") simp_all

lemma pow2_le_imp: "(2::rat) powi m \<le> 2 powi n \<Longrightarrow> m \<le> n"
  using power_int_strict_increasing[of n m "2::rat"] by (cases "m \<le> n") simp_all

lemma ilog2_mono:
  assumes "0 < x" "x \<le> y" shows "ilog2 x \<le> ilog2 y"
proof -
  have y: "0 < y" using assms by simp
  have "(2::rat) powi ilog2 x < 2 powi (ilog2 y + 1)"
    using ilog2_bounds(1)[OF assms(1)] ilog2_bounds(2)[OF y] assms(2) by linarith
  then have "ilog2 x < ilog2 y + 1" by (rule pow2_less_imp)
  then show ?thesis by simp
qed

lemma rhe_of_int [simp]: "round_half_even (of_int n) = n"
  by (simp add: round_half_even_def)

lemma rhe_bounds:
  "of_int (round_half_even x) \<le> x + 1 / 2" "x - 1 / 2 \<le> of_int (round_half_even x)"
  unfolding round_half_even_def Let_def by (auto simp: not_less) linarith+

lemma rhe_mono:
  assumes "x \<le> y" shows "round_half_even x \<le> round_half_even y"
proof (cases "\<lfloor>x\<rfloor> = \<lfloor>y\<rfloor>")
  case True
  then show ?thesis using assms unfolding round_half_even_def Let_def by auto
next
  case False
  then have "\<lfloor>x\<rfloor> + 1 \<le> \<lfloor>y\<rfloor>" using floor_mono[OF assms] by linarith
  moreover have "round_half_even x \<le> \<lfloor>x\<rfloor> + 1"
    unfolding round_half_even_def Let_def by auto
  moreover have "\<lfloor>y\<rfloor> \<le> round_half_even y"
    unfolding round_half_even_def Let_def by auto
  ultimately show ?thesis by linarith
qed

lemma rhe_ge_int: "of_int n \<le> x \<Longrightarrow> n \<le> round_half_even x"
  using rhe_mono[of "of_int n" x] by simp

lemma rhe_le_int: "x \<le> of_int n \<Longrightarrow> round_half_even x \<le> n"
  using rhe_mono[of x "of_int n"] by simp

lemma fl_pos_eq:
  "0 < x \<Longrightarrow> fl x = of_int (round_half_even (x / 2 powi fexp x)) * 2 powi fexp x"
  by (simp add: fl_def)

lemma fl_nonneg: "0 \<le> x \<Longrightarrow> 0 \<le> fl x"
proof (cases "x = 0")
  case True then show ?thesis by (simp add: fl_def)
next
  case False
  assume "0 \<le> x"
  with False have x: "0 < x" by simp
  have "0 \<le> round_half_even (x / 2 powi fexp x)"
    by (rule rhe_ge_int) (use x in simp)
  then show ?thesis by (simp add: fl_pos_eq[OF x])
qed

lemma fl_mono:
  assumes "0 \<le> x" "x \<le> y" shows "fl x \<le> fl y"
proof (cases "x = 0")
  case True
  then show ?thesis using fl_nonneg[of y] assms by (simp add: fl_def)
next
  case False
  with assms have x: "0 < x" and y: "0 < y" by simp_all
  have xa: "\<bar>x\<bar> = x" and ya: "\<bar>y\<bar> = y" using x y by simp_all
  have le: "fexp x \<le> fexp y"
    using ilog2_mono[OF x assms(2)] by (simp add: fexp_def xa ya)
  show ?thesis
  proof (cases "fexp x = fexp y")
    case True
    have "x / 2 powi fexp y \<le> y / 2 powi fexp y"
      using assms(2) by (simp add: divide_right_mono)
    from rhe_mono[OF this] show ?thesis
      by (simp add: fl_pos_eq[OF x] fl_pos_eq[OF y] True)
  next
    case False
    with le have lt: "fexp x < fexp y" by simp
    have ey: "fexp y = ilog2 y - 52"
      using lt by (simp add: fexp_def xa ya max_def split: if_splits)
    have ex: "ilog2 x \<le> fexp x + 52" by (simp add: fexp_def xa)
    have "(2::rat) powi (fexp y + 52) \<le> y" using ilog2_bounds(1)[OF y] by (simp add: ey)
    then have "(2::rat) powi 52 * 2 powi fexp y \<le> y" by (simp add: power_int_add)
    then have "of_int (2 ^ 52) \<le> y / 2 powi fexp y" by (simp add: pos_le_divide_eq)
    then have "2 ^ 52 \<le> round_half_even (y / 2 powi fexp y)" by (rule rhe_ge_int)
    then have "(of_int (2 ^ 52) :: rat) \<le> of_int (round_half_even (y / 2 powi fexp y))"
      by (simp only: of_int_le_iff)
    then have "(2::rat) ^ 52 * 2 powi fexp y \<le> fl y"
      by (simp add: fl_pos_eq[OF y] mult_right_mono)
    then have ylow: "(2::rat) powi (fexp y + 52) \<le> fl y" by (simp add: power_int_add)
    have "x < 2 powi (ilog2 x + 1)" by (rule ilog2_bounds(2)[OF x])
    also have "\<dots> \<le> 2 powi (fexp x + 53)" using ex by (simp add: power_int_increasing)
    finally have "x < 2 powi 53 * 2 powi fexp x" by (simp add: power_int_add)
    then have "x / 2 powi fexp x \<le> of_int (2 ^ 53)" by (simp add: pos_divide_le_eq)
    then have "round_half_even (x / 2 powi fexp x) \<le> 2 ^ 53" by (rule rhe_le_int)
    then have "(of_int (round_half_even (x / 2 powi fexp x)) :: rat) \<le> of_int (2 ^ 53)"
      by (simp only: of_int_le_iff)
    then have "fl x \<le> (2::rat) ^ 53 * 2 powi fexp x"
      by (simp add: fl_pos_eq[OF x] mult_right_mono)
    then have "fl x \<le> (2::rat) powi (fexp x + 53)" by (simp add: power_int_add)
    also have "\<dots> \<le> 2 powi (fexp y + 52)" using lt by (simp add: power_int_increasing)
    finally show ?thesis using ylow by simp
  qed
qed

lemma fl_zero [simp]: "fl 0 = 0" by (simp add: fl_def)

lemma fl_of_int:
  assumes "0 \<le> n" "n \<le> 2 ^ 53"
  shows "fl (of_int n) = of_int n"
proof (cases "n = 0")
  case True then show ?thesis by simp
next
  case False
  with assms have n: "0 < n" by simp
  define x :: rat where "x = of_int n"
  have x: "0 < x" "1 \<le> x" "x \<le> 2 powi 53" using n assms(2) unfolding x_def
    by (simp_all add: of_int_le_iff[where ?'a = rat, of n "2 ^ 53", simplified] )
  define i where "i = ilog2 x"
  have "(2::rat) powi 0 < 2 powi (i + 1)"
    using ilog2_bounds(2)[OF x(1)] x(2) unfolding i_def by simp
  then have i0: "0 \<le> i" using pow2_less_imp[of 0 "i + 1"] by simp
  have "(2::rat) powi i \<le> 2 powi 53" using ilog2_bounds(1)[OF x(1)] x(3) unfolding i_def by simp
  then have i53: "i \<le> 53" by (rule pow2_le_imp)
  have e: "fexp x = i - 52" using i0 x(1) by (simp add: fexp_def i_def)
  show ?thesis
  proof (cases "i \<le> 52")
    case True
    have "x / 2 powi (i - 52) = x * 2 powi (52 - i)"
      by (simp add: power_int_diff)
    also have "\<dots> = of_int (n * 2 ^ nat (52 - i))"
      using True by (simp add: x_def power_int_def)
    finally have q: "x / 2 powi fexp x = of_int (n * 2 ^ nat (52 - i))" by (simp add: e)
    have "fl x = of_int (n * 2 ^ nat (52 - i)) * 2 powi (i - 52)"
      unfolding fl_pos_eq[OF x(1)] q rhe_of_int by (simp add: e)
    also have "\<dots> = x * (2 powi (52 - i) * 2 powi (i - 52))"
      using True by (simp add: x_def power_int_def)
    also have "\<dots> = x" by (simp flip: power_int_add)
    finally show ?thesis by (simp add: x_def)
  next
    case False
    with i53 have i: "i = 53" by simp
    have "(2::rat) powi 53 \<le> x" using ilog2_bounds(1)[OF x(1)] by (simp add: i_def[symmetric] i)
    with x(3) have x53: "x = 2 powi 53" by simp
    have fe: "fexp x = 1" using e i by simp
    have q: "x / 2 powi 1 = of_int (2 ^ 52)" by (simp add: x53)
    have "fl x = of_int (2 ^ 52) * 2 powi 1"
      by (simp only: fl_pos_eq[OF x(1)] fe q rhe_of_int)
    also have "\<dots> = x" unfolding x53 by simp
    finally show ?thesis by (simp add: x_def)
  qed
qed

lemma fl_rel_lower:
  assumes "0 < x" "- 1022 \<le> ilog2 x"
  shows "x * (1 - 2 powi (- 53)) \<le> fl x"
proof -
  have e: "fexp x = ilog2 x - 52" using assms by (simp add: fexp_def)
  have "x / 2 powi fexp x - 1 / 2 \<le> of_int (round_half_even (x / 2 powi fexp x))"
    by (rule rhe_bounds)
  then have "(x / 2 powi fexp x - 1 / 2) * 2 powi fexp x \<le> fl x"
    unfolding fl_pos_eq[OF assms(1)] by (simp add: mult_right_mono)
  then have "x - 2 powi fexp x / 2 \<le> fl x" by (simp add: algebra_simps)
  moreover have "2 powi fexp x / 2 = 2 powi ilog2 x * (2::rat) powi (- 53)"
    by (simp add: e power_int_diff power_int_minus)
  moreover have "2 powi ilog2 x * (2::rat) powi (- 53) \<le> x * 2 powi (- 53)"
    using ilog2_bounds(1)[OF assms(1)] by (simp add: mult_right_mono)
  ultimately show ?thesis by (simp add: algebra_simps)
qed

section \<open>The scaled size\<close>

lemma fl_one [simp]: "fl 1 = 1"
  using fl_of_int[of 1] by simp

lemma two53_less: "(2::rat) ^ 53 < 2 powi 1024"
  using power_int_strict_increasing[of 53 1024 "2::rat"] by simp

lemma finite_float_small: "\<bar>r\<bar> \<le> 2 ^ 53 \<Longrightarrow> finite_float r = Inr r"
  using two53_less by (simp add: finite_float_def)

lemma float_of_int_exact: "0 \<le> n \<Longrightarrow> n \<le> 2 ^ 53 \<Longrightarrow> float_of_int n = Inr (of_int n)"
proof -
  assume n: "0 \<le> n" "n \<le> 2 ^ 53"
  have "(of_int n :: rat) \<le> of_int (2 ^ 53)" using n(2) by (simp only: of_int_le_iff)
  then have "\<bar>of_int n :: rat\<bar> \<le> 2 ^ 53" using n(1) by simp
  then show ?thesis by (simp add: float_of_int_def fl_of_int[OF n] finite_float_small)
qed

lemma fl_le_int:
  assumes "0 \<le> x" "x \<le> of_int n" "n \<le> 2 ^ 53"
  shows "fl x \<le> of_int n"
proof -
  have "0 \<le> n" using assms(1,2) by (simp add: of_int_0_le_iff[where ?'a = rat, symmetric] del: of_int_0_le_iff)
  from fl_mono[OF assms(1,2)] fl_of_int[OF this assms(3)] show ?thesis by simp
qed

lemma fl_ge_int:
  assumes "0 \<le> n" "of_int n \<le> x" "n \<le> 2 ^ 53"
  shows "of_int n \<le> fl x"
proof -
  have "(0::rat) \<le> of_int n" using assms(1) by simp
  from fl_mono[OF this assms(2)] fl_of_int[OF assms(1,3)] show ?thesis by simp
qed

lemma dim_ok_rat: "dim_ok n \<Longrightarrow> (1::rat) \<le> of_int n \<and> (of_int n :: rat) \<le> 2 ^ 31"
proof -
  assume "dim_ok n"
  then have "1 \<le> n" "n \<le> 2 ^ 31" by (simp_all add: dim_ok_def)
  then have "(of_int 1 :: rat) \<le> of_int n" "(of_int n :: rat) \<le> of_int (2 ^ 31)"
    by (simp_all only: of_int_le_iff)
  then show ?thesis by simp
qed

lemma dim_ok_53: "dim_ok n \<Longrightarrow> 0 \<le> n \<and> n \<le> 2 ^ 53"
  by (simp add: dim_ok_def)

lemma aspect_range:
  assumes "dim_ok w" "dim_ok h"
  shows "(0::rat) < of_int w / of_int h" "(of_int w :: rat) / of_int h \<le> of_int (2 ^ 31)"
    "(2::rat) powi (- 31) \<le> of_int w / of_int h"
proof -
  note w = dim_ok_rat[OF assms(1)] and h = dim_ok_rat[OF assms(2)]
  show "(0::rat) < of_int w / of_int h" using w h by simp
  have "(of_int w :: rat) / of_int h \<le> of_int w / 1"
    using w h by (intro divide_left_mono) simp_all
  then show "(of_int w :: rat) / of_int h \<le> of_int (2 ^ 31)" using w by simp
  have "(1::rat) / 2 ^ 31 \<le> 1 / of_int h" using h by (intro divide_left_mono) simp_all
  also have "\<dots> \<le> of_int w / of_int h" using w h by (intro divide_right_mono) simp_all
  finally show "(2::rat) powi (- 31) \<le> of_int w / of_int h"
    by (simp add: power_int_minus divide_simps)
qed

lemma int_truediv_dims:
  assumes "dim_ok w" "dim_ok h"
  shows "int_truediv w h = Inr (fl (of_int w / of_int h))"
proof -
  note r = aspect_range[OF assms]
  have "fl (of_int w / of_int h) \<le> of_int (2 ^ 31)"
    by (rule fl_le_int) (use r in simp_all)
  moreover have "0 \<le> fl (of_int w / of_int h)" by (rule fl_nonneg) (use r in simp)
  ultimately have "\<bar>fl (of_int w / of_int h)\<bar> \<le> 2 ^ 53" by simp
  moreover have "h \<noteq> 0" using assms(2) by (simp add: dim_ok_def)
  ultimately show ?thesis by (simp add: int_truediv_def finite_float_small)
qed

lemma fl_next_one: "fl (1 + 2 powi (- 52)) = 1 + 2 powi (- 52)"
  by code_simp

lemma aspect_gt_one_iff:
  assumes "dim_ok w" "dim_ok h"
  shows "1 < fl (of_int w / of_int h) \<longleftrightarrow> h < w"
proof
  assume a: "1 < fl (of_int w / of_int h)"
  show "h < w"
  proof (rule ccontr)
    assume "\<not> h < w"
    then have "w \<le> h" by simp
    then have "(of_int w :: rat) \<le> of_int h" by (simp only: of_int_le_iff)
    then have "(of_int w :: rat) / of_int h \<le> 1"
      using dim_ok_rat[OF assms(2)] by (simp add: divide_le_eq_1)
    from fl_mono[OF _ this] aspect_range(1)[OF assms] have "fl (of_int w / of_int h) \<le> 1"
      by simp
    with a show False by simp
  qed
next
  assume "h < w"
  then have "h + 1 \<le> w" by simp
  then have wh: "(of_int h :: rat) + 1 \<le> of_int w"
    using of_int_le_iff[where ?'a = rat, of "h + 1" w] by simp
  note h = dim_ok_rat[OF assms(2)]
  have "(2::rat) powi (- 52) \<le> 1 / 2 ^ 31" by (simp add: power_int_minus divide_simps)
  also have "\<dots> \<le> 1 / of_int h" using h by (intro divide_left_mono) simp_all
  finally have "1 + (2::rat) powi (- 52) \<le> (of_int h + 1) / of_int h"
    using h by (simp add: add_divide_distrib)
  also have "\<dots> \<le> of_int w / of_int h" using wh h by (intro divide_right_mono) simp_all
  finally have "fl (1 + 2 powi (- 52)) \<le> fl (of_int w / of_int h)"
    by (intro fl_mono) simp_all
  then show "1 < fl (of_int w / of_int h)" unfolding fl_next_one
    by (simp add: power_int_minus)
qed

lemma aspect_pos:
  assumes "dim_ok w" "dim_ok h"
  shows "0 < fl (of_int w / of_int h)"
proof -
  have x: "0 < (of_int w :: rat) / of_int h" by (rule aspect_range(1)[OF assms])
  have i: "- 1022 \<le> ilog2 (of_int w / of_int h)"
  proof -
    have "(2::rat) powi (- 31) < 2 powi (ilog2 (of_int w / of_int h) + 1)"
      using aspect_range(3)[OF assms] ilog2_bounds(2)[OF x] by linarith
    from pow2_less_imp[OF this] show ?thesis by simp
  qed
  have "0 < (of_int w :: rat) / of_int h * (1 - 2 powi (- 53))"
    using x by (simp add: power_int_minus)
  with fl_rel_lower[OF x i] show ?thesis by linarith
qed

lemma py_int_nonneg: "0 \<le> x \<Longrightarrow> py_int x = \<lfloor>x\<rfloor>"
  by (simp add: py_int_def)

lemma scaled_size_wide:
  assumes "dim_ok w" "dim_ok h" "dim_ok cw" "h < w"
  shows "scaled_size w h (cw, ch) =
           Inr (cw, \<lfloor>fl (of_int cw / fl (of_int w / of_int h))\<rfloor>)"
    and "0 \<le> fl (of_int cw / fl (of_int w / of_int h))"
    and "fl (of_int cw / fl (of_int w / of_int h)) \<le> of_int cw"
proof -
  define a where "a = fl (of_int w / of_int h)"
  have a1: "1 < a" using aspect_gt_one_iff[OF assms(1,2)] assms(4) by (simp add: a_def)
  note c = dim_ok_rat[OF assms(3)] and c53 = dim_ok_53[OF assms(3)]
  have q0: "(0::rat) \<le> of_int cw / a" using a1 c by simp
  have "(of_int cw :: rat) / a \<le> of_int cw / 1" using a1 c by (intro divide_left_mono) simp_all
  then have q1: "(of_int cw :: rat) / a \<le> of_int cw" by simp
  show lo: "0 \<le> fl (of_int cw / fl (of_int w / of_int h))"
    using fl_nonneg[OF q0] by (simp add: a_def)
  show hi: "fl (of_int cw / fl (of_int w / of_int h)) \<le> of_int cw"
    using fl_le_int[OF q0 q1] c53 by (simp add: a_def)
  have "(of_int cw :: rat) \<le> 2 ^ 53" using c by simp
  with lo hi have "\<bar>fl (of_int cw / a)\<bar> \<le> 2 ^ 53" by (simp add: a_def)
  then have "float_truediv (of_int cw) a = Inr (fl (of_int cw / a))"
    using a1 by (simp add: float_truediv_def finite_float_small)
  then show "scaled_size w h (cw, ch) =
           Inr (cw, \<lfloor>fl (of_int cw / fl (of_int w / of_int h))\<rfloor>)"
    using a1 lo c53
    by (simp add: scaled_size_def int_truediv_dims[OF assms(1,2)] float_of_int_exact
        py_int_nonneg a_def)
qed

lemma scaled_size_tall:
  assumes "dim_ok w" "dim_ok h" "dim_ok ch" "w \<le> h"
  shows "scaled_size w h (cw, ch) =
           Inr (\<lfloor>fl (of_int ch * fl (of_int w / of_int h))\<rfloor>, ch)"
    and "0 \<le> fl (of_int ch * fl (of_int w / of_int h))"
    and "fl (of_int ch * fl (of_int w / of_int h)) \<le> of_int ch"
proof -
  define a where "a = fl (of_int w / of_int h)"
  have a1: "\<not> 1 < a" using aspect_gt_one_iff[OF assms(1,2)] assms(4) by (simp add: a_def)
  have a0: "0 < a" using aspect_pos[OF assms(1,2)] by (simp add: a_def)
  note c = dim_ok_rat[OF assms(3)] and c53 = dim_ok_53[OF assms(3)]
  have q0: "(0::rat) \<le> of_int ch * a" using a0 c by simp
  have "(of_int ch :: rat) * a \<le> of_int ch * 1" using a1 c by (intro mult_left_mono) simp_all
  then have q1: "(of_int ch :: rat) * a \<le> of_int ch" by simp
  show lo: "0 \<le> fl (of_int ch * fl (of_int w / of_int h))"
    using fl_nonneg[OF q0] by (simp add: a_def)
  show hi: "fl (of_int ch * fl (of_int w / of_int h)) \<le> of_int ch"
    using fl_le_int[OF q0 q1] c53 by (simp add: a_def)
  have "(of_int ch :: rat) \<le> 2 ^ 53" using c by simp
  with lo hi have "\<bar>fl (of_int ch * a)\<bar> \<le> 2 ^ 53" by (simp add: a_def)
  then have "float_mul (of_int ch) a = Inr (fl (of_int ch * a))"
    by (simp add: float_mul_def finite_float_small)
  then show "scaled_size w h (cw, ch) =
           Inr (\<lfloor>fl (of_int ch * fl (of_int w / of_int h))\<rfloor>, ch)"
    using a1 lo c53
    by (simp add: scaled_size_def int_truediv_dims[OF assms(1,2)] float_of_int_exact
        py_int_nonneg a_def)
qed

lemma floor_round_rat: "\<lfloor>q\<rfloor> \<le> round (q::rat)" "round (q::rat) \<le> \<lfloor>q\<rfloor> + 1"
proof -
  show "\<lfloor>q\<rfloor> \<le> round q" unfolding round_def by (rule floor_mono) simp
  have "\<lfloor>q + 1 / 2\<rfloor> \<le> \<lfloor>q + 1\<rfloor>" by (rule floor_mono) simp
  then show "round q \<le> \<lfloor>q\<rfloor> + 1" unfolding round_def by simp
qed

lemma spec_scaled_size_wide:
  assumes "dim_ok w" "dim_ok h" "dim_ok cw" "h < w"
  shows "spec_scaled_size w h (cw, ch) =
           Inr (cw, round (fl (of_int cw / fl (of_int w / of_int h))))"
    and "float_truediv (of_int cw) (fl (of_int w / of_int h)) =
           Inr (fl (of_int cw / fl (of_int w / of_int h)))"
proof -
  define a where "a = fl (of_int w / of_int h)"
  have a1: "1 < a" using aspect_gt_one_iff[OF assms(1,2)] assms(4) by (simp add: a_def)
  note c = dim_ok_rat[OF assms(3)] and c53 = dim_ok_53[OF assms(3)]
  note b = scaled_size_wide(2,3)[OF assms, folded a_def]
  have "(of_int cw :: rat) \<le> 2 ^ 53" using c by simp
  with b have "\<bar>fl (of_int cw / a)\<bar> \<le> 2 ^ 53" by simp
  then show q: "float_truediv (of_int cw) (fl (of_int w / of_int h)) =
           Inr (fl (of_int cw / fl (of_int w / of_int h)))"
    using a1 by (simp add: float_truediv_def finite_float_small a_def)
  show "spec_scaled_size w h (cw, ch) =
           Inr (cw, round (fl (of_int cw / fl (of_int w / of_int h))))"
    using a1 c53 q
    by (simp add: spec_scaled_size_def int_truediv_dims[OF assms(1,2)] float_of_int_exact a_def)
qed

lemma spec_scaled_size_tall:
  assumes "dim_ok w" "dim_ok h" "dim_ok ch" "w \<le> h"
  shows "spec_scaled_size w h (cw, ch) =
           Inr (round (fl (of_int ch * fl (of_int w / of_int h))), ch)"
    and "float_mul (of_int ch) (fl (of_int w / of_int h)) =
           Inr (fl (of_int ch * fl (of_int w / of_int h)))"
proof -
  define a where "a = fl (of_int w / of_int h)"
  have a1: "\<not> 1 < a" using aspect_gt_one_iff[OF assms(1,2)] assms(4) by (simp add: a_def)
  note c = dim_ok_rat[OF assms(3)] and c53 = dim_ok_53[OF assms(3)]
  note b = scaled_size_tall(2,3)[OF assms, folded a_def]
  have "(of_int ch :: rat) \<le> 2 ^ 53" using c by simp
  with b have "\<bar>fl (of_int ch * a)\<bar> \<le> 2 ^ 53" by simp
  then show q: "float_mul (of_int ch) (fl (of_int w / of_int h)) =
           Inr (fl (of_int ch * fl (of_int w / of_int h)))"
    by (simp add: float_mul_def finite_float_small a_def)
  show "spec_scaled_size w h (cw, ch) =
           Inr (round (fl (of_int ch * fl (of_int w / of_int h))), ch)"
    using a1 c53 q
    by (simp add: spec_scaled_size_def int_truediv_dims[OF assms(1,2)] float_of_int_exact a_def)
qed

lemma floor_le_of_le_int: "(x::rat) \<le> of_int n \<Longrightarrow> \<lfloor>x\<rfloor> \<le> n"
  using floor_mono[of x "of_int n"] by simp

lemma aspect_ilog2:
  assumes "dim_ok w" "dim_ok h"
  shows "- 1022 \<le> ilog2 (of_int w / of_int h)"
proof -
  have x: "0 < (of_int w :: rat) / of_int h" by (rule aspect_range(1)[OF assms])
  have "(2::rat) powi (- 31) < 2 powi (ilog2 (of_int w / of_int h) + 1)"
    using aspect_range(3)[OF assms] ilog2_bounds(2)[OF x] by linarith
  from pow2_less_imp[OF this] show ?thesis by simp
qed

lemma scaled_height_positive:
  assumes "dim_ok w" "dim_ok h" "dim_ok cw" "h < w" "w \<le> cw * h"
  shows "1 \<le> \<lfloor>fl (of_int cw / fl (of_int w / of_int h))\<rfloor>"
proof -
  define a where "a = fl (of_int w / of_int h)"
  have a1: "1 < a" using aspect_gt_one_iff[OF assms(1,2)] assms(4) by (simp add: a_def)
  note h = dim_ok_rat[OF assms(2)] and c53 = dim_ok_53[OF assms(3)]
  have "(of_int w :: rat) \<le> of_int (cw * h)" using assms(5) by (simp only: of_int_le_iff)
  then have "(of_int w :: rat) / of_int h \<le> of_int cw" using h by (simp add: pos_divide_le_eq)
  then have "a \<le> of_int cw"
    unfolding a_def using aspect_range(1)[OF assms(1,2)] c53 by (intro fl_le_int) simp_all
  then have "(of_int 1 :: rat) \<le> of_int cw / a" using a1 by (simp add: pos_le_divide_eq)
  then have "(of_int 1 :: rat) \<le> fl (of_int cw / a)" by (intro fl_ge_int) simp_all
  then show ?thesis by (simp add: le_floor_iff a_def)
qed

lemma scaled_width_positive:
  assumes "dim_ok w" "dim_ok h" "dim_ok ch" "w \<le> h" "h < ch * w"
  shows "1 \<le> \<lfloor>fl (of_int ch * fl (of_int w / of_int h))\<rfloor>"
proof -
  define x :: rat where "x = of_int w / of_int h"
  define a where "a = fl x"
  note h = dim_ok_rat[OF assms(2)] and c = dim_ok_rat[OF assms(3)]
  have x0: "0 < x" unfolding x_def by (rule aspect_range(1)[OF assms(1,2)])
  have B: "x * (1 - 2 powi (- 53)) \<le> a"
    unfolding a_def using aspect_ilog2[OF assms(1,2)] x0 by (intro fl_rel_lower) (simp_all add: x_def)
  have "h + 1 \<le> ch * w" using assms(5) by simp
  then have "(of_int (h + 1) :: rat) \<le> of_int (ch * w)" by (simp only: of_int_le_iff)
  then have "((of_int h :: rat) + 1) / of_int h \<le> of_int ch * x"
    using h by (simp add: x_def divide_right_mono)
  moreover have "1 + (2::rat) powi (- 31) \<le> (of_int h + 1) / of_int h"
  proof -
    have "(2::rat) powi (- 31) \<le> 1 / 2 ^ 31" by (simp add: power_int_minus divide_simps)
    also have "\<dots> \<le> 1 / of_int h" using h by (intro divide_left_mono) simp_all
    finally show ?thesis using h by (simp add: add_divide_distrib)
  qed
  ultimately have A: "1 + (2::rat) powi (- 31) \<le> of_int ch * x" by linarith
  have "(1::rat) \<le> (1 + 2 powi (- 31)) * (1 - 2 powi (- 53))"
    by (simp add: power_int_minus)
  also have "\<dots> \<le> (of_int ch * x) * (1 - 2 powi (- 53))"
    using A by (intro mult_right_mono) (simp_all add: power_int_minus)
  also have "\<dots> = of_int ch * (x * (1 - 2 powi (- 53)))" by simp
  also have "\<dots> \<le> of_int ch * a" using B c by (intro mult_left_mono) simp_all
  finally have "(of_int 1 :: rat) \<le> of_int ch * a" by simp
  then have "(of_int 1 :: rat) \<le> fl (of_int ch * a)" by (intro fl_ge_int) simp_all
  then show ?thesis by (simp add: le_floor_iff a_def x_def)
qed

lemma resize_image_ok:
  assumes "scaled_size (width img) (height img) (cw, ch) = Inr (nw, nh)"
    and "1 \<le> nw" "1 \<le> nh" "0 \<le> cw" "0 \<le> ch"
  shows "resize_image img (cw, ch) =
           Inr \<lparr>width = cw, height = ch, mode = ''RGB'',
                 content = Pasted (Solid (255, 255, 255)) (Lanczos (content img) (nw, nh))
                             ((cw - nw) div 2, (ch - nh) div 2) (nw, nh)\<rparr>"
  using assms by (simp add: resize_image_def pil_resize_def pil_new_def pil_paste_def)

lemma resize_image_empty:
  assumes "scaled_size (width img) (height img) (cw, ch) = Inr (nw, nh)"
    and "nw < 1 \<or> nh < 1"
  shows "resize_image img (cw, ch) = Inl (ValueError ''height and width must be > 0'')"
  using assms by (auto simp add: resize_image_def pil_resize_def)

lemma scaled_size_moderate:
  assumes "dim_ok w" "dim_ok h" "dim_ok cw" "dim_ok ch"
    and "(h < w \<and> w \<le> cw * h) \<or> (w \<le> h \<and> h < ch * w)"
  shows "\<exists>nw nh. scaled_size w h (cw, ch) = Inr (nw, nh) \<and> 1 \<le> nw \<and> 1 \<le> nh"
proof (cases "h < w")
  case True
  with assms(5) have "w \<le> cw * h" by auto
  from scaled_height_positive[OF assms(1,2,3) True this]
    scaled_size_wide(1)[OF assms(1,2,3) True, of ch] assms(3)
  show ?thesis by (simp add: dim_ok_def)
next
  case False
  with assms(5) have le: "w \<le> h" and "h < ch * w" by auto
  from scaled_width_positive[OF assms(1,2,4) this]
    scaled_size_tall(1)[OF assms(1,2,4) le, of cw] assms(4)
  show ?thesis by (simp add: dim_ok_def)
qed

lemma scaled_size_total:
  assumes "dim_ok w" "dim_ok h" "dim_ok cw" "dim_ok ch"
  shows "\<exists>nw nh. scaled_size w h (cw, ch) = Inr (nw, nh)"
  using scaled_size_wide(1)[OF assms(1,2,3), of ch] scaled_size_tall(1)[OF assms(1,2,4), of cw]
  by (cases "h < w") auto

lemma margins_balanced: "\<bar>(c - n) div 2 - (c - n - (c - n) div 2)\<bar> \<le> (1::int)"
  by presburger

lemma eval_3_2_on_2500:
  "\<lfloor>fl (of_int 2500 / fl (of_int 3 / of_int 2))\<rfloor> = 1666"
  "round (fl (of_int 2500 / fl (of_int 3 / of_int 2))) = 1667"
  by code_simp+

lemma eval_3_2_on_100: "\<lfloor>fl (of_int 100 / fl (of_int 3 / of_int 2))\<rfloor> = 66"
  by code_simp

lemma eval_1_5000_on_2500: "\<lfloor>fl (of_int 2500 * fl (of_int 1 / of_int 5000))\<rfloor> = 0"
  by code_simp

lemma eval_2501_1_on_2500: "\<lfloor>fl (of_int 2500 / fl (of_int 2501 / of_int 1))\<rfloor> = 0"
  by code_simp

lemma dim_ok_numeral [simp]: "dim_ok (numeral k) \<longleftrightarrow> (numeral k :: int) < 2 ^ 31"
  by (simp add: dim_ok_def)

lemma dim_ok_one [simp]: "dim_ok 1"
  by (simp add: dim_ok_def)

section \<open>Claims about the resizer\<close>

text \<open>
  Claim C2, as amended. For a source image and a canvas with dimensions the imaging library
  can hold, the scaled size is computed without error. If \<open>width > height\<close> then
  \<open>new_width\<close> is the canvas width and \<open>new_height\<close> is at most the canvas \<^emph>\<open>width\<close>; if
  \<open>height \<ge> width\<close> (squares included) then \<open>new_height\<close> is the canvas height and
  \<open>new_width\<close> is at most the canvas \<^emph>\<open>height\<close>. The free dimension therefore stays within
  the canvas whenever the canvas is square, as the default 2500 by 2500 is, and more
  generally whenever the driving canvas dimension is not the larger one.
\<close>

theorem scaled_content_within_canvas:
  assumes "dim_ok w" "dim_ok h" "dim_ok cw" "dim_ok ch"
  shows "\<exists>nw nh. scaled_size w h (cw, ch) = Inr (nw, nh) \<and>
           (h < w \<longrightarrow> nw = cw \<and> nh \<le> cw \<and> (cw \<le> ch \<longrightarrow> nh \<le> ch)) \<and>
           (w \<le> h \<longrightarrow> nh = ch \<and> nw \<le> ch \<and> (ch \<le> cw \<longrightarrow> nw \<le> cw))"
proof (cases "h < w")
  case True
  note s = scaled_size_wide(1)[OF assms(1,2,3) True, of ch] scaled_size_wide(2,3)[OF assms(1,2,3) True]
  have "\<lfloor>fl (of_int cw / fl (of_int w / of_int h))\<rfloor> \<le> cw"
    by (rule floor_le_of_le_int) (rule s(3))
  then show ?thesis using True s(1) by auto
next
  case False
  then have le: "w \<le> h" by simp
  note s = scaled_size_tall(1)[OF assms(1,2,4) le, of cw] scaled_size_tall(2,3)[OF assms(1,2,4) le]
  have "\<lfloor>fl (of_int ch * fl (of_int w / of_int h))\<rfloor> \<le> ch"
    by (rule floor_le_of_le_int) (rule s(3))
  then show ?thesis using le s(1) by auto
qed

text \<open>The hypotheses of C2 hold for a 3 by 2 image on the default canvas.\<close>

theorem scaled_content_within_canvas_witness:
  "dim_ok 3 \<and> dim_ok 2 \<and> dim_ok 2500 \<and>
   (\<exists>nw nh. scaled_size 3 2 (2500, 2500) = Inr (nw, nh) \<and> nw = 2500 \<and> nh \<le> 2500)"
  using scaled_content_within_canvas[of 3 2 2500 2500] by simp

text \<open>
  Claim C2 as stated fails on a canvas that is wider than tall: a 3 by 2 image on a canvas
  of 100 by 50 is scaled to 100 by 66, taller than the canvas.
\<close>

theorem scaled_content_exceeds_canvas:
  "scaled_size 3 2 (100, 50) = Inr (100, 66) \<and> \<not> (66::int) \<le> 50"
proof -
  have "scaled_size 3 2 (100, 50) = Inr (100, \<lfloor>fl (of_int 100 / fl (of_int 3 / of_int 2))\<rfloor>)"
    by (rule scaled_size_wide(1)) simp_all
  then have "scaled_size 3 2 (100, 50) = Inr (100, 66)" by (simp only: eval_3_2_on_100)
  then show ?thesis by simp
qed

text \<open>
  Claim C3, as amended. With \<open>aspect\<close> the float \<^verbatim>\<open>width / height\<close>: if \<open>aspect > 1\<close> then
  \<open>new_height\<close> is the float quotient \<^verbatim>\<open>canvas_width / aspect\<close> truncated toward zero (its
  floor, the quotient being non-negative), otherwise \<open>new_width\<close> is the float product
  \<^verbatim>\<open>canvas_height * aspect\<close> truncated. The truncated value is the rounded value of the
  specification or one less.
\<close>

theorem scaled_size_truncates:
  assumes "dim_ok w" "dim_ok h" "dim_ok cw" "dim_ok ch"
  shows "\<exists>a q. int_truediv w h = Inr a \<and> 0 \<le> q \<and> \<lfloor>q\<rfloor> \<le> round q \<and> round q \<le> \<lfloor>q\<rfloor> + 1 \<and>
           (if 1 < a
            then float_truediv (of_int cw) a = Inr q \<and>
                 scaled_size w h (cw, ch) = Inr (cw, \<lfloor>q\<rfloor>) \<and>
                 spec_scaled_size w h (cw, ch) = Inr (cw, round q)
            else float_mul (of_int ch) a = Inr q \<and>
                 scaled_size w h (cw, ch) = Inr (\<lfloor>q\<rfloor>, ch) \<and>
                 spec_scaled_size w h (cw, ch) = Inr (round q, ch))"
proof (cases "h < w")
  case True
  then have a1: "1 < fl (of_int w / of_int h)" using aspect_gt_one_iff[OF assms(1,2)] by simp
  show ?thesis
    apply (rule exI[of _ "fl (of_int w / of_int h)"])
    apply (rule exI[of _ "fl (of_int cw / fl (of_int w / of_int h))"])
    using a1 scaled_size_wide(1)[OF assms(1,2,3) True, of ch]
      scaled_size_wide(2)[OF assms(1,2,3) True]
      spec_scaled_size_wide(1)[OF assms(1,2,3) True, of ch]
      spec_scaled_size_wide(2)[OF assms(1,2,3) True] int_truediv_dims[OF assms(1,2)]
    by (simp add: floor_round_rat)
next
  case False
  then have le: "w \<le> h" by simp
  have a1: "\<not> 1 < fl (of_int w / of_int h)" using aspect_gt_one_iff[OF assms(1,2)] le by simp
  show ?thesis
    apply (rule exI[of _ "fl (of_int w / of_int h)"])
    apply (rule exI[of _ "fl (of_int ch * fl (of_int w / of_int h))"])
    using a1 scaled_size_tall(1)[OF assms(1,2,4) le, of cw]
      scaled_size_tall(2)[OF assms(1,2,4) le]
      spec_scaled_size_tall(1)[OF assms(1,2,4) le, of cw]
      spec_scaled_size_tall(2)[OF assms(1,2,4) le] int_truediv_dims[OF assms(1,2)]
    by (simp add: floor_round_rat)
qed

text \<open>The hypotheses of C3 hold for a 3 by 2 image on the default canvas.\<close>

theorem scaled_size_truncates_witness:
  "dim_ok 3 \<and> dim_ok 2 \<and> dim_ok 2500 \<and>
   (\<exists>a q. int_truediv 3 2 = Inr a \<and> 0 \<le> q \<and> \<lfloor>q\<rfloor> \<le> round q \<and> round q \<le> \<lfloor>q\<rfloor> + 1 \<and>
           (if 1 < a
            then float_truediv (of_int 2500) a = Inr q \<and>
                 scaled_size 3 2 (2500, 2500) = Inr (2500, \<lfloor>q\<rfloor>) \<and>
                 spec_scaled_size 3 2 (2500, 2500) = Inr (2500, round q)
            else float_mul (of_int 2500) a = Inr q \<and>
                 scaled_size 3 2 (2500, 2500) = Inr (\<lfloor>q\<rfloor>, 2500) \<and>
                 spec_scaled_size 3 2 (2500, 2500) = Inr (round q, 2500)))"
  using scaled_size_truncates[of 3 2 2500 2500] by simp

text \<open>
  Claim C3 as stated fails: for a 3 by 2 image on the default canvas the quotient is
  \<open>1666.66...\<close>; the code yields 1666, rounding to nearest yields 1667.
\<close>

theorem scaled_size_not_rounded:
  "scaled_size 3 2 (2500, 2500) = Inr (2500, 1666) \<and>
   spec_scaled_size 3 2 (2500, 2500) = Inr (2500, 1667)"
proof -
  have "scaled_size 3 2 (2500, 2500) =
          Inr (2500, \<lfloor>fl (of_int 2500 / fl (of_int 3 / of_int 2))\<rfloor>)"
    by (rule scaled_size_wide(1)) simp_all
  then have code: "scaled_size 3 2 (2500, 2500) = Inr (2500, 1666)"
    by (simp only: eval_3_2_on_2500)
  have "spec_scaled_size 3 2 (2500, 2500) =
          Inr (2500, round (fl (of_int 2500 / fl (of_int 3 / of_int 2))))"
    by (rule spec_scaled_size_wide(1)) simp_all
  then have "spec_scaled_size 3 2 (2500, 2500) = Inr (2500, 1667)"
    by (simp only: eval_3_2_on_2500)
  with code show ?thesis by simp
qed

text \<open>
  Claim C1, as amended. For an input image and a canvas with dimensions the imaging library
  can hold, the scaled size is computed without error. When both scaled dimensions are at
  least 1, \<^verbatim>\<open>resize_image\<close> returns an image of exactly the canvas size, in mode RGB, whose
  content is the source scaled to that size and pasted on a white canvas at the offset
  \<open>((canvas_width - new_width) div 2, (canvas_height - new_height) div 2)\<close>, which leaves
  left and right margins, and top and bottom margins, differing by at most one pixel. This
  is the case whenever the aspect ratio is moderate for the canvas
  (\<open>height < width \<le> canvas_width * height\<close>, or \<open>width \<le> height < canvas_height * width\<close>).
  When a scaled dimension is 0, the library rejects the empty target size and no image is
  returned.
\<close>

theorem resize_centered_on_canvas:
  assumes "dim_ok (width img)" "dim_ok (height img)" "dim_ok cw" "dim_ok ch"
  shows "\<exists>nw nh.
           scaled_size (width img) (height img) (cw, ch) = Inr (nw, nh) \<and>
           ((height img < width img \<and> width img \<le> cw * height img) \<or>
            (width img \<le> height img \<and> height img < ch * width img)
              \<longrightarrow> 1 \<le> nw \<and> 1 \<le> nh) \<and>
           (if 1 \<le> nw \<and> 1 \<le> nh
            then resize_image img (cw, ch) =
                   Inr \<lparr>width = cw, height = ch, mode = ''RGB'',
                         content = Pasted (Solid (255, 255, 255)) (Lanczos (content img) (nw, nh))
                                     ((cw - nw) div 2, (ch - nh) div 2) (nw, nh)\<rparr> \<and>
                 \<bar>(cw - nw) div 2 - (cw - nw - (cw - nw) div 2)\<bar> \<le> 1 \<and>
                 \<bar>(ch - nh) div 2 - (ch - nh - (ch - nh) div 2)\<bar> \<le> 1
            else resize_image img (cw, ch) = Inl (ValueError ''height and width must be > 0''))"
proof -
  from scaled_size_total[OF assms] obtain nw nh
    where s: "scaled_size (width img) (height img) (cw, ch) = Inr (nw, nh)" by blast
  have c: "0 \<le> cw" "0 \<le> ch" using assms(3,4) by (simp_all add: dim_ok_def)
  have m: "(height img < width img \<and> width img \<le> cw * height img) \<or>
            (width img \<le> height img \<and> height img < ch * width img)
              \<longrightarrow> 1 \<le> nw \<and> 1 \<le> nh"
  proof
    assume a: "(height img < width img \<and> width img \<le> cw * height img) \<or>
            (width img \<le> height img \<and> height img < ch * width img)"
    from scaled_size_moderate[OF assms a] s show "1 \<le> nw \<and> 1 \<le> nh" by simp
  qed
  have r: "if 1 \<le> nw \<and> 1 \<le> nh
            then resize_image img (cw, ch) =
                   Inr \<lparr>width = cw, height = ch, mode = ''RGB'',
                         content = Pasted (Solid (255, 255, 255)) (Lanczos (content img) (nw, nh))
                                     ((cw - nw) div 2, (ch - nh) div 2) (nw, nh)\<rparr> \<and>
                 \<bar>(cw - nw) div 2 - (cw - nw - (cw - nw) div 2)\<bar> \<le> 1 \<and>
                 \<bar>(ch - nh) div 2 - (ch - nh - (ch - nh) div 2)\<bar> \<le> 1
            else resize_image img (cw, ch) = Inl (ValueError ''height and width must be > 0'')"
  proof (cases "1 \<le> nw \<and> 1 \<le> nh")
    case True
    then show ?thesis
      using resize_image_ok[OF s _ _ c] margins_balanced[of cw nw] margins_balanced[of ch nh]
      by simp
  next
    case False
    then have "nw < 1 \<or> nh < 1" by auto
    from resize_image_empty[OF s this] False show ?thesis by simp
  qed
  from s m r show ?thesis by blast
qed

text \<open>The hypotheses of C1 hold for a 3 by 2 RGBA image on the default canvas.\<close>

theorem resize_centered_on_canvas_witness:
  "dim_ok 3 \<and> dim_ok 2 \<and> dim_ok 2500 \<and>
   (\<exists>nw nh. scaled_size 3 2 (2500, 2500) = Inr (nw, nh) \<and> 1 \<le> nw \<and> 1 \<le> nh \<and>
      resize_image \<lparr>width = 3, height = 2, mode = ''RGBA'', content = Decoded 0\<rparr> (2500, 2500) =
        Inr \<lparr>width = 2500, height = 2500, mode = ''RGB'',
              content = Pasted (Solid (255, 255, 255)) (Lanczos (Decoded 0) (nw, nh))
                          ((2500 - nw) div 2, (2500 - nh) div 2) (nw, nh)\<rparr>)"
proof -
  from resize_centered_on_canvas[of "\<lparr>width = 3, height = 2, mode = ''RGBA'', content = Decoded 0\<rparr>"
      2500 2500]
  obtain nw nh where "scaled_size 3 2 (2500, 2500) = Inr (nw, nh)" "1 \<le> nw \<and> 1 \<le> nh"
    "if 1 \<le> nw \<and> 1 \<le> nh
     then resize_image \<lparr>width = 3, height = 2, mode = ''RGBA'', content = Decoded 0\<rparr> (2500, 2500) =
        Inr \<lparr>width = 2500, height = 2500, mode = ''RGB'',
              content = Pasted (Solid (255, 255, 255)) (Lanczos (Decoded 0) (nw, nh))
                          ((2500 - nw) div 2, (2500 - nh) div 2) (nw, nh)\<rparr> \<and>
                 \<bar>(2500 - nw) div 2 - (2500 - nw - (2500 - nw) div 2)\<bar> \<le> 1 \<and>
                 \<bar>(2500 - nh) div 2 - (2500 - nh - (2500 - nh) div 2)\<bar> \<le> 1
     else resize_image \<lparr>width = 3, height = 2, mode = ''RGBA'', content = Decoded 0\<rparr> (2500, 2500) = Inl (ValueError ''height and width must be > 0'')"
    by auto
  then show ?thesis by auto
qed

text \<open>
  Claim C1 as stated fails: for a 1 by 5000 image on the default canvas \<open>new_width\<close> is
  \<^verbatim>\<open>int(0.5) = 0\<close>, the library rejects the empty target size, and no image is returned.
\<close>

theorem resize_raises_on_tall_sliver:
  "resize_image \<lparr>width = 1, height = 5000, mode = ''RGB'', content = Decoded 0\<rparr> (2500, 2500)
     = Inl (ValueError ''height and width must be > 0'')"
proof -
  have "scaled_size 1 5000 (2500, 2500) =
          Inr (\<lfloor>fl (of_int 2500 * fl (of_int 1 / of_int 5000))\<rfloor>, 2500)"
    by (rule scaled_size_tall(1)) simp_all
  then have "scaled_size 1 5000 (2500, 2500) = Inr (0, 2500)"
    by (simp only: eval_1_5000_on_2500)
  then show ?thesis by (intro resize_image_empty[of _ _ _ 0 2500]) simp_all
qed

text \<open>
  Claim C4, as amended. For a decoded image and a canvas with dimensions the imaging
  library can hold, \<^verbatim>\<open>resize_image\<close> either returns an image or raises the library's
  \<^verbatim>\<open>ValueError\<close> for an empty target size, and it raises only for an extreme aspect ratio:
  \<open>width > canvas_width * height\<close> or \<open>height \<ge> canvas_height * width\<close>.
\<close>

theorem resize_fails_only_on_extreme_aspect:
  assumes "dim_ok (width img)" "dim_ok (height img)" "dim_ok cw" "dim_ok ch"
  shows "(\<exists>out. resize_image img (cw, ch) = Inr out) \<or>
         (resize_image img (cw, ch) = Inl (ValueError ''height and width must be > 0'') \<and>
          (cw * height img < width img \<or> ch * width img \<le> height img))"
proof (cases "(height img < width img \<and> width img \<le> cw * height img) \<or>
         (width img \<le> height img \<and> height img < ch * width img)")
  case True
  from scaled_size_moderate[OF assms True] obtain nw nh
    where s: "scaled_size (width img) (height img) (cw, ch) = Inr (nw, nh)"
      and pos: "1 \<le> nw" "1 \<le> nh" by blast
  have c: "0 \<le> cw" "0 \<le> ch" using assms(3,4) by (simp_all add: dim_ok_def)
  from resize_image_ok[OF s pos c] show ?thesis by simp
next
  case False
  then have ext: "cw * height img < width img \<or> ch * width img \<le> height img" by auto
  from scaled_size_total[OF assms] obtain nw nh
    where s: "scaled_size (width img) (height img) (cw, ch) = Inr (nw, nh)" by blast
  have c: "0 \<le> cw" "0 \<le> ch" using assms(3,4) by (simp_all add: dim_ok_def)
  show ?thesis
  proof (cases "1 \<le> nw \<and> 1 \<le> nh")
    case True
    then show ?thesis using resize_image_ok[OF s _ _ c] by simp
  next
    case False
    then have "nw < 1 \<or> nh < 1" by auto
    from resize_image_empty[OF s this] ext show ?thesis by simp
  qed
qed

text \<open>The hypotheses of C4 hold for a 1200 by 800 image on the default canvas.\<close>

theorem resize_fails_only_on_extreme_aspect_witness:
  "dim_ok 2500 \<and>
   ((\<exists>out. resize_image \<lparr>width = 1200, height = 800, mode = ''RGB'', content = Decoded 0\<rparr>
             (2500, 2500) = Inr out) \<or>
    (resize_image \<lparr>width = 1200, height = 800, mode = ''RGB'', content = Decoded 0\<rparr>
       (2500, 2500) = Inl (ValueError ''height and width must be > 0'') \<and>
     ((2500::int) * 800 < 1200 \<or> (2500::int) * 1200 \<le> 800)))"
  using resize_fails_only_on_extreme_aspect[of
      "\<lparr>width = 1200, height = 800, mode = ''RGB'', content = Decoded 0\<rparr>" 2500 2500]
  by simp

text \<open>
  Claim C4 as stated fails: for a 2501 by 1 image on the default canvas \<open>new_height\<close> is
  \<^verbatim>\<open>int(2500 / 2501.0) = 0\<close> and \<^verbatim>\<open>Image.resize\<close> raises.
\<close>

theorem resize_raises_on_wide_sliver:
  "resize_image \<lparr>width = 2501, height = 1, mode = ''RGB'', content = Decoded 0\<rparr> default_size
     = Inl (ValueError ''height and width must be > 0'')"
proof -
  have "scaled_size 2501 1 (2500, 2500) =
          Inr (2500, \<lfloor>fl (of_int 2500 / fl (of_int 2501 / of_int 1))\<rfloor>)"
    by (rule scaled_size_wide(1)) simp_all
  then have "scaled_size 2501 1 (2500, 2500) = Inr (2500, 0)"
    by (simp only: eval_2501_1_on_2500)
  then show ?thesis unfolding default_size_def
    by (intro resize_image_empty[of _ _ _ 2500 0]) simp_all
qed

lemma basename_no_slash: "CHR ''/'' \<notin> set (basename p)"
proof -
  have "\<forall>c \<in> set (takeWhile (\<lambda>c. c \<noteq> CHR ''/'') (rev p)). c \<noteq> CHR ''/''"
    by (auto dest: set_takeWhileD)
  then show ?thesis by (auto simp: basename_def)
qed

lemma basename_append_slash:
  assumes "CHR ''/'' \<notin> set b"
  shows "basename (a @ CHR ''/'' # b) = b"
proof -
  have "takeWhile (\<lambda>c. c \<noteq> CHR ''/'') (rev b @ CHR ''/'' # rev a) =
          rev b @ takeWhile (\<lambda>c. c \<noteq> CHR ''/'') (CHR ''/'' # rev a)"
    by (rule takeWhile_append2) (use assms in auto)
  then show ?thesis by (simp add: basename_def)
qed

lemma basename_plain:
  assumes "CHR ''/'' \<notin> set b"
  shows "basename b = b"
proof -
  have tw: "takeWhile (\<lambda>c. c \<noteq> CHR ''/'') (rev b) = rev b"
    by (rule takeWhile_eq_all_conv[THEN iffD2]) (use assms in auto)
  show ?thesis unfolding basename_def tw by simp
qed

lemma path_join_relative:
  "CHR ''/'' \<notin> set b \<Longrightarrow>
   path_join a b = (if a = [] \<or> last a = CHR ''/'' then a @ b else a @ CHR ''/'' # b)"
  by (cases b) (auto simp: path_join_def)

lemma basename_join:
  assumes "CHR ''/'' \<notin> set b"
  shows "basename (path_join a b) = b"
proof (cases "a = []")
  case True
  then show ?thesis using assms by (simp add: path_join_relative basename_plain)
next
  case False
  show ?thesis
  proof (cases "last a = CHR ''/''")
    case True
    with False obtain a' where a': "a = a' @ [CHR ''/'']"
      by (metis append_butlast_last_id)
    have "basename (a @ b) = b"
      using basename_append_slash[OF assms, of a'] by (simp add: a')
    then show ?thesis using assms True by (simp add: path_join_relative)
  next
    case last: False
    from basename_append_slash[OF assms, of a] show ?thesis
      using assms False last by (simp add: path_join_relative)
  qed
qed

lemma basename_join_basename: "basename (path_join a (basename n)) = basename n"
  by (rule basename_join) (rule basename_no_slash)

lemma child_longer:
  assumes "child parent p" shows "length parent < length p"
proof -
  from assms have b: "basename p \<noteq> []" and p: "p = path_join parent (basename p)"
    by (simp_all add: child_def)
  have "length parent < length (path_join parent (basename p))"
    using b by (simp add: path_join_relative[OF basename_no_slash])
  with p show ?thesis by simp
qed

lemma child_join_basename: "child parent p \<Longrightarrow> path_join parent (basename p) = p"
  by (simp add: child_def)

termination walk_tree
proof (relation "measure (\<lambda>(ds, root_dir, _). sum_list (map length ds) - length root_dir)", goal_cases)
  case 1
  show ?case by simp
next
  case (2 ds root_dir output_folder output_format processed_images w x xa xb xc)
  then obtain q where q: "q \<in> set ds" "child root_dir q" and xb: "xb = basename q"
    by (auto simp: scandir_dirs_def)
  have "length q \<le> sum_list (map length ds)"
    using q(1) by (simp add: member_le_sum_list)
  moreover have "length root_dir < length q" by (rule child_longer[OF q(2)])
  ultimately show ?case by (simp add: xb child_join_basename[OF q(2)])
qed

lemma process_image_success:
  assumes "process_image w image_path output_folder output_format original_name output_size
             = (Some output_path, w')"
  shows "output_path = path_join output_folder (basename original_name)"
    and "supported output_format"
    and "\<exists>img img_resized. pil_open w image_path = Inr img \<and>
           resize_image img output_size = Inr img_resized \<and>
           pil_save w output_path (encoder_name output_format) img_resized = Inr w'"
  using assms
  by (auto simp: process_image_def Let_def encoder_name_def supported_def
      split: sum.splits if_splits)

lemma process_image_failure:
  assumes "process_image w image_path output_folder output_format original_name output_size
             = (None, w')"
  shows "\<exists>e. w' = log_error w image_path e"
  using assms
  by (auto simp: process_image_def Let_def split: sum.splits if_splits)

lemma map_of_pil_save:
  "pil_save w p enc img = Inr w' \<Longrightarrow> map_of (files w') p = Some (Picture enc img)"
  by (auto simp: pil_save_def update_conv' split: if_splits)

section \<open>Claims about the per-file pipeline and the batch runner\<close>

text \<open>
  Claim C10. For every successfully processed task the base name of the output path,
  extension included, is the base name of the source whatever the output format is, and
  the file written there is encoded in the chosen format (a source \<^verbatim>\<open>photo.png\<close> processed
  with format \<^verbatim>\<open>jpg\<close> gives a JPEG file named \<^verbatim>\<open>photo.png\<close>).
\<close>

theorem output_name_is_source_name:
  assumes "process_image w image_path output_folder output_format original_name output_size
             = (Some output_path, w')"
  shows "basename output_path = basename original_name \<and>
         (\<exists>img. map_of (files w') output_path
                   = Some (Picture (encoder_name output_format) img))"
proof -
  from process_image_success[OF assms] obtain img_resized
    where p: "output_path = path_join output_folder (basename original_name)"
      and w': "pil_save w output_path (encoder_name output_format) img_resized = Inr w'"
    by blast
  show ?thesis
    using map_of_pil_save[OF w'] by (auto simp: p basename_join_basename)
qed

lemma resize_img_3_2:
  "resize_image \<lparr>width = 3, height = 2, mode = m, content = c\<rparr> (2500, 2500) =
     Inr \<lparr>width = 2500, height = 2500, mode = ''RGB'',
           content = Pasted (Solid (255, 255, 255)) (Lanczos c (2500, 1666))
                       (0, 417) (2500, 1666)\<rparr>"
proof -
  have "scaled_size 3 2 (2500, 2500) =
          Inr (2500, \<lfloor>fl (of_int 2500 / fl (of_int 3 / of_int 2))\<rfloor>)"
    by (rule scaled_size_wide(1)) simp_all
  then have s: "scaled_size 3 2 (2500, 2500) = Inr (2500, 1666)"
    by (simp only: eval_3_2_on_2500)
  show ?thesis
    using resize_image_ok[of "\<lparr>width = 3, height = 2, mode = m, content = c\<rparr>" 2500 2500 2500 1666]
      s by simp
qed

lemma resize_photo: "resize_image photo default_size = Inr photo_resized"
  by (simp add: photo_def photo_resized_def default_size_def resize_img_3_2)

lemma process_photo:
  "process_image w_photo ''in/photo.png'' ''out'' ''jpg'' ''in/photo.png'' default_size =
     (Some ''out/photo.png'',
      w_photo\<lparr>files := [(''in/photo.png'', Picture ''PNG'' photo),
                         (''out/photo.png'', Picture ''JPEG'' photo_resized)]\<rparr>)"
  by (simp add: process_image_def pil_open_def w_photo_def resize_photo basename_def
      path_join_def lower_def lower_char_def pil_save_def isdir_def Let_def)

text \<open>A PNG source processed with format \<^verbatim>\<open>jpg\<close>: the hypothesis of C10 holds.\<close>

theorem output_name_is_source_name_witness:
  "basename ''out/photo.png'' = basename ''in/photo.png'' \<and>
   (\<exists>img. map_of (files (w_photo\<lparr>files := [(''in/photo.png'', Picture ''PNG'' photo),
                         (''out/photo.png'', Picture ''JPEG'' photo_resized)]\<rparr>))
             ''out/photo.png'' = Some (Picture (encoder_name ''jpg'') img))"
  using output_name_is_source_name[OF process_photo] .

lemma isfile_makedirs [simp]: "isfile (makedirs w p) q = isfile w q"
  by (simp add: isfile_def makedirs_def ensure_dirs_def)

lemma zip_open_makedirs [simp]: "zip_open (makedirs w p) q = zip_open w q"
  by (simp add: zip_open_def makedirs_def ensure_dirs_def)

lemma rmtree_nothing_under:
  "p \<in> set (dirs (rmtree w t)) \<union> fst ` set (files (rmtree w t)) \<Longrightarrow> \<not> under t p"
  by (auto simp: rmtree_def)

lemma under_self [simp]: "under t t"
  by (simp add: under_def)

lemma rmtree_not_exists: "\<not> exists_path (rmtree w t) t"
proof
  assume "exists_path (rmtree w t) t"
  then have "t \<in> set (dirs (rmtree w t)) \<union> fst ` set (files (rmtree w t))"
    by (auto simp: exists_path_def isdir_def isfile_def dest!: map_of_SomeD intro: rev_image_eqI)
  from rmtree_nothing_under[OF this] show False by simp
qed

lemma extract_and_process_cleanup:
  assumes "mkdtemp w = Inr (t, w1)"
  shows "\<exists>w2. snd (extract_and_process_images w zip_file output_folder output_format)
               = rmtree w2 t"
  using assms
  by (auto simp: extract_and_process_images_def split: prod.splits option.splits)

text \<open>
  Claim C9. For an archive input that opens, the temporary directory created for the
  invocation does not exist when \<^verbatim>\<open>process_images\<close> is left, and nothing exists below it,
  whether the batch returned its results or raised.
\<close>

theorem temp_dir_removed:
  assumes "isfile w input_path"
    and "endswith (lower input_path) ''.zip'' \<or> endswith (lower input_path) ''.rar''"
    and "zip_open w input_path = Inr zip_file"
    and "mkdtemp (makedirs w output_folder) = Inr (temp_dir, w1)"
  shows "\<not> exists_path (snd (process_images w input_path output_folder output_format)) temp_dir \<and>
         (\<forall>p \<in> set (dirs (snd (process_images w input_path output_folder output_format)))
               \<union> fst ` set (files (snd (process_images w input_path output_folder output_format))).
            \<not> under temp_dir p)"
proof -
  have "process_images w input_path output_folder output_format =
          extract_and_process_images (makedirs w output_folder) zip_file output_folder
            output_format"
    using assms(1,2,3) by (simp add: process_images_def Let_def)
  with extract_and_process_cleanup[OF assms(4), of zip_file output_folder output_format]
  obtain w2 where "snd (process_images w input_path output_folder output_format)
                     = rmtree w2 temp_dir" by auto
  then show ?thesis using rmtree_not_exists rmtree_nothing_under by metis
qed

lemma bad_zip_run:
  "isfile w_zip ''bad.zip''" "endswith (lower ''bad.zip'') ''.zip''"
  "zip_open w_zip ''bad.zip'' = Inr [(''a/photo.png'', Some (Picture ''PNG'' photo)),
                                     (''b/broken.png'', None)]"
  "mkdtemp (makedirs w_zip ''out'') = Inr (''/tmp/tmp0'',
     \<lparr>dirs = [''/tmp'', ''out'', ''/tmp/tmp0''], files = files w_zip, log = [],
      temp_names = [''1'']\<rparr>)"
  "fst (process_images w_zip ''bad.zip'' ''out'' ''png'') = Inl BadZipFile"
  by code_simp+

text \<open>
  An archive with an unreadable member: extraction raises after the temporary directory
  was created and filled in part, and the directory is gone afterwards.
\<close>

theorem temp_dir_removed_witness:
  "isfile w_zip ''bad.zip'' \<and> endswith (lower ''bad.zip'') ''.zip'' \<and>
   fst (process_images w_zip ''bad.zip'' ''out'' ''png'') = Inl BadZipFile \<and>
   \<not> exists_path (snd (process_images w_zip ''bad.zip'' ''out'' ''png'')) ''/tmp/tmp0''"
  using temp_dir_removed[OF bad_zip_run(1) disjI1[OF bad_zip_run(2)] bad_zip_run(3,4), of "''png''"]
    bad_zip_run(1,2,5) by blast

lemma fold_invariant:
  "(\<And>x s. x \<in> set xs \<Longrightarrow> I s \<Longrightarrow> I (f x s)) \<Longrightarrow> I s \<Longrightarrow> I (fold f xs s)"
  by (induction xs arbitrary: s) auto

lemma run_tasks_invariant:
  assumes step: "\<And>acc w p r w'. I (acc, w) \<Longrightarrow>
             process_image w p output_folder output_format p default_size = (r, w') \<Longrightarrow>
             I (collect acc r, w')"
  shows "I (acc, w) \<Longrightarrow> I (run_tasks w ps output_folder output_format acc)"
proof (induction ps arbitrary: acc w)
  case Nil
  then show ?case by simp
next
  case (Cons p ps)
  obtain r w' where pi: "process_image w p output_folder output_format p default_size = (r, w')"
    by (cases "process_image w p output_folder output_format p default_size")
  from step[OF Cons.prems pi] have "I (collect acc r, w')" .
  from Cons.IH[OF this] show ?case by (simp add: pi collect_def)
qed

lemma walk_tree_invariant:
  assumes "\<And>acc w p r w'. I (acc, w) \<Longrightarrow>
             process_image w p output_folder output_format p default_size = (r, w') \<Longrightarrow>
             I (collect acc r, w')"
    and "I s"
  shows "I (walk_tree ds root_dir output_folder output_format s)"
  using assms
proof (induction ds root_dir output_folder output_format s rule: walk_tree.induct)
  case (1 ds root_dir output_folder output_format processed_images w)
  note step = "1.prems"(1) and init = "1.prems"(2)
  have s1: "I (run_tasks w (map (path_join root_dir) (scandir_files w root_dir)) output_folder
              output_format processed_images)"
    by (rule run_tasks_invariant[where I = I, OF step init])
  show ?case
    unfolding walk_tree.simps Let_def
  proof (rule fold_invariant[where I = I, OF _ s1])
    fix x s
    assume x: "x \<in> set (scandir_dirs ds root_dir)" and s: "I s"
    show "I (walk_tree ds (path_join root_dir x) output_folder output_format s)"
      by (rule "1.IH"[OF refl refl x step s])
  qed
qed


lemma process_image_unsupported:
  assumes "\<not> supported output_format"
  shows "process_image w image_path output_folder output_format original_name output_size =
           (None, log_error w image_path
              (case pil_open w image_path of
                 Inl e \<Rightarrow> e
               | Inr img \<Rightarrow>
                   (case resize_image img output_size of
                      Inl e \<Rightarrow> e
                    | Inr img_resized \<Rightarrow>
                        ValueError (''Formato no soportado: '' @ output_format))))"
  using assms by (simp add: process_image_def supported_def Let_def split: sum.splits)

lemma walk_tree_unsupported:
  assumes "\<not> supported output_format"
  shows "fst (walk_tree ds root_dir output_folder output_format ([], w)) = [] \<and>
         files (snd (walk_tree ds root_dir output_folder output_format ([], w))) = files w \<and>
         dirs (snd (walk_tree ds root_dir output_folder output_format ([], w))) = dirs w"
proof -
  define I where "I = (\<lambda>s :: string list \<times> world.
      fst s = [] \<and> files (snd s) = files w \<and> dirs (snd s) = dirs w)"
  have "I (walk_tree ds root_dir output_folder output_format ([], w))"
  proof (rule walk_tree_invariant[where I = I])
    show "I ([], w)" by (simp add: I_def)
  next
    fix acc w1 p r w'
    assume "I (acc, w1)"
      and "process_image w1 p output_folder output_format p default_size = (r, w')"
    then show "I (collect acc r, w')"
      by (auto simp: process_image_unsupported[OF assms] I_def collect_def log_error_def)
  qed
  then show ?thesis by (simp add: I_def)
qed

lemma finite_float_code:
  "finite_float r = (if r \<noteq> 0 \<and> 1024 \<le> ilog2 \<bar>r\<bar> then Inl OverflowError else Inr r)"
proof (cases "r = 0")
  case True
  then show ?thesis by (simp add: finite_float_def)
next
  case False
  then have r: "0 < \<bar>r\<bar>" by simp
  have "2 powi 1024 \<le> \<bar>r\<bar> \<longleftrightarrow> 1024 \<le> ilog2 \<bar>r\<bar>"
  proof
    assume "2 powi 1024 \<le> \<bar>r\<bar>"
    with ilog2_bounds(2)[OF r] have "(2::rat) powi 1024 < 2 powi (ilog2 \<bar>r\<bar> + 1)" by linarith
    from pow2_less_imp[OF this] show "1024 \<le> ilog2 \<bar>r\<bar>" by simp
  next
    assume "1024 \<le> ilog2 \<bar>r\<bar>"
    then have "(2::rat) powi 1024 \<le> 2 powi ilog2 \<bar>r\<bar>" by (intro power_int_increasing) simp_all
    with ilog2_bounds(1)[OF r] show "2 powi 1024 \<le> \<bar>r\<bar>" by linarith
  qed
  then show ?thesis using False by (simp add: finite_float_def)
qed

declare finite_float_code [code]







lemma pil_save_success:
  assumes "pil_save w p enc img = Inr w'"
  shows "\<not> isdir w p" "basename p \<noteq> []" "dirs w' = dirs w"
    "files w' = AList.update p (Picture enc img) (files w)"
    "log w' = log w" "temp_names w' = temp_names w"
  using assms by (auto simp: pil_save_def split: if_splits)

lemma process_image_dirs:
  "process_image w p out fmt n sz = (r, w') \<Longrightarrow> dirs w' = dirs w"
  by (cases r)
    (auto dest!: process_image_failure process_image_success(3) pil_save_success(3)
      simp: log_error_def)










end
